theory Spec2Isabelle
  imports Complex_Main
begin

section \<open>The simulation engine of \<open>src/game_of_life.py\<close>\<close>

text \<open>
  A cell is the pair \<open>(row, col)\<close> of Python integers, which are unbounded.
\<close>

type_synonym Cell = "int \<times> int"

text \<open>
  The class \<open>GameOfLife\<close> has four fields. A method that assigns to \<open>self\<close> is a
  function returning the new state; a method that returns a value is a function
  returning the pair of that value and the state it leaves behind. A Python set is
  finite; nothing below needs that, and the properties are proved for any set of cells.
\<close>

record game =
  width :: int
  height :: int
  alive_cells :: "Cell set"
  generation :: int

definition GameOfLife :: "int \<Rightarrow> int \<Rightarrow> game" where
  "GameOfLife w h = \<lparr>width = w, height = h, alive_cells = {}, generation = 0\<rparr>"

definition add_cell :: "int \<Rightarrow> int \<Rightarrow> game \<Rightarrow> game" where
  "add_cell row col g = g\<lparr>alive_cells := insert (row, col) (alive_cells g)\<rparr>"

text \<open>\<open>set.discard\<close> removes the element when it is there and never raises.\<close>

definition remove_cell :: "int \<Rightarrow> int \<Rightarrow> game \<Rightarrow> game" where
  "remove_cell row col g = g\<lparr>alive_cells := alive_cells g - {(row, col)}\<rparr>"

definition is_alive :: "int \<Rightarrow> int \<Rightarrow> game \<Rightarrow> bool \<times> game" where
  "is_alive row col g = ((row, col) \<in> alive_cells g, g)"

text \<open>
  The two nested loops of \<open>count_neighbors\<close> over the literal list \<open>[-1, 0, 1]\<close>,
  with \<open>count\<close> as the accumulator; \<open>continue\<close> leaves it as it is.
\<close>

definition count_neighbors :: "int \<Rightarrow> int \<Rightarrow> game \<Rightarrow> int \<times> game" where
  "count_neighbors row col g =
     (fold (\<lambda>dr. fold (\<lambda>dc count.
              if dr = 0 \<and> dc = 0 then count
              else if (row + dr, col + dc) \<in> alive_cells g then count + 1
              else count) [-1, 0, 1]) [-1, 0, 1] 0, g)"

text \<open>
  The first loop of \<open>step\<close> adds, for every alive cell, the nine cells
  \<open>(row + dr, col + dc)\<close> to the set \<open>cells_to_check\<close>. The loop runs over a set and only
  adds to a set, so its result is this union whatever the iteration order.
\<close>

definition cells_to_check :: "game \<Rightarrow> Cell set" where
  "cells_to_check g =
     (\<Union>(row, col) \<in> alive_cells g.
        fold (\<lambda>dr. fold (\<lambda>dc acc. insert (row + dr, col + dc) acc) [-1, 0, 1])
          [-1, 0, 1] {})"

text \<open>
  The second loop keeps the cells of \<open>cells_to_check\<close> that pass the rule in
  \<open>new_alive\<close>; \<open>neighbors in (2, 3)\<close> is membership in a pair.
\<close>

definition step :: "game \<Rightarrow> game" where
  "step g =
     (let new_alive = Set.filter (\<lambda>(row, col).
            let neighbors = fst (count_neighbors row col g) in
            if fst (is_alive row col g) then neighbors \<in> {2, 3}
            else neighbors = 3) (cells_to_check g)
      in g\<lparr>alive_cells := new_alive, generation := generation g + 1\<rparr>)"

definition clear :: "game \<Rightarrow> game" where
  "clear g = g\<lparr>alive_cells := {}, generation := 0\<rparr>"

definition population :: "game \<Rightarrow> int \<times> game" where
  "population g = (int (card (alive_cells g)), g)"

text \<open>\<open>range(n)\<close> is empty when \<open>n\<close> is not positive.\<close>

definition range_int :: "int \<Rightarrow> int list" where
  "range_int n = map int [0..<nat n]"

text \<open>
  The comparison \<open>random.random() < density\<close> is one of floats. A float is a real
  number, an infinity or NaN, and \<open><\<close> is false as soon as one side is NaN.
\<close>

datatype pyfloat = Finite real | PosInf | NegInf | NaN

fun float_lt :: "pyfloat \<Rightarrow> pyfloat \<Rightarrow> bool" where
  "float_lt (Finite x) (Finite y) = (x < y)"
| "float_lt (Finite x) PosInf = True"
| "float_lt NegInf (Finite y) = True"
| "float_lt NegInf PosInf = True"
| "float_lt _ _ = False"

text \<open>
  \<open>random.random\<close> belongs to Python's library: it is the parameter \<open>random\<close>, a
  function from the generator's state to the float drawn (always a finite one) and
  the state after the draw. \<open>randomize\<close> threads that state through both loops.
\<close>

definition randomize :: "('r \<Rightarrow> real \<times> 'r) \<Rightarrow> pyfloat \<Rightarrow> game \<times> 'r \<Rightarrow> game \<times> 'r" where
  "randomize random density gs =
     fold (\<lambda>row. \<lambda>(g0, s0).
        fold (\<lambda>col. \<lambda>(g, s).
            let (x, s') = random s in
            if float_lt (Finite x) density then (add_cell row col g, s') else (g, s'))
          (range_int (width g0)) (g0, s0))
       (range_int (height (clear (fst gs)))) (clear (fst gs), snd gs)"

text \<open>
  \<open>add_pattern\<close>: \<open>enumerate\<close> pairs every line and every character with its index
  from 0. A \<open>char\<close> stands for one character of the Python string.
\<close>

definition add_pattern :: "string list \<Rightarrow> int \<Rightarrow> int \<Rightarrow> game \<Rightarrow> game" where
  "add_pattern pattern offset_row offset_col g =
     fold (\<lambda>(r, line).
        fold (\<lambda>(c, char).
            if char \<in> {CHR ''O'', CHR ''#'', CHR ''*''}
            then add_cell (int r + offset_row) (int c + offset_col) else id)
          (enumerate 0 line))
       (enumerate 0 pattern) g"

text \<open>The catalog \<open>PATTERNS\<close>, a dictionary from names to patterns.\<close>

definition PATTERNS :: "string \<rightharpoonup> string list" where
  "PATTERNS = map_of
     [(''glider'',
        [''.O.'',
         ''..O'',
         ''OOO'']),
      (''blinker'',
        [''OOO'']),
      (''toad'',
        [''.OOO'',
         ''OOO.'']),
      (''beacon'',
        [''OO..'',
         ''OO..'',
         ''..OO'',
         ''..OO'']),
      (''pulsar'',
        [''..OOO...OOO..'',
         ''.............'',
         ''O....O.O....O'',
         ''O....O.O....O'',
         ''O....O.O....O'',
         ''..OOO...OOO..'',
         ''.............'',
         ''..OOO...OOO..'',
         ''O....O.O....O'',
         ''O....O.O....O'',
         ''O....O.O....O'',
         ''.............'',
         ''..OOO...OOO..'']),
      (''glider_gun'',
        [''........................O...........'',
         ''......................O.O...........'',
         ''............OO......OO............OO'',
         ''...........O...O....OO............OO'',
         ''OO........O.....O...OO..............'',
         ''OO........O...O.OO....O.O...........'',
         ''..........O.....O.......O...........'',
         ''...........O...O....................'',
         ''............OO......................'']),
      (''lightweight_spaceship'',
        [''.OOOO'',
         ''O...O'',
         ''....O'',
         ''O..O.'']),
      (''r_pentomino'',
        [''.OO'',
         ''OO.'',
         ''.O.'']),
      (''diehard'',
        [''......O.'',
         ''OO......'',
         ''.O...OOO'']),
      (''acorn'',
        [''.O.....'',
         ''...O...'',
         ''OO..OOO'']),
      (''block'',
        [''OO'',
         ''OO'']),
      (''beehive'',
        [''.OO.'',
         ''O..O'',
         ''.OO.'']),
      (''loaf'',
        [''.OO.'',
         ''O..O'',
         ''.O.O'',
         ''..O.''])]"

section \<open>Definitions used to state the properties\<close>

text \<open>
  The birth and survival rule as the specification words it, for any cell of the
  unbounded grid: an alive cell with neighbor count 2 or 3 is alive in the next
  generation, a dead cell with neighbor count exactly 3 is alive in the next
  generation, and every other cell is dead.
\<close>

definition conway_rule :: "game \<Rightarrow> Cell \<Rightarrow> bool" where
  "conway_rule g c =
     (let n = fst (count_neighbors (fst c) (snd c) g) in
      (c \<in> alive_cells g \<and> (n = 2 \<or> n = 3)) \<or> (c \<notin> alive_cells g \<and> n = 3))"

text \<open>
  A generator to run \<open>randomize\<close> on: its state counts the draws, and the draws cycle
  through 0, 1/4, 1/2 and 3/4.
\<close>

definition sample_random :: "nat \<Rightarrow> real \<times> nat" where
  "sample_random s = (real (s mod 4) / 4, s + 1)"

text \<open>The translation of a cell by \<open>(dr, dc)\<close>.\<close>

definition translate :: "int \<Rightarrow> int \<Rightarrow> Cell \<Rightarrow> Cell" where
  "translate dr dc c = (fst c + dr, snd c + dc)"

section \<open>The generation counter, \<open>clear\<close>, \<open>add_cell\<close> and \<open>remove_cell\<close>\<close>

text \<open>
  C4: whatever the alive set and the generation counter were, after \<open>clear\<close> the
  population is 0 and the generation counter is 0.
\<close>

theorem clear_population_generation:
  "fst (population (clear g)) = 0 \<and> generation (clear g) = 0"
  by (simp add: population_def clear_def)

text \<open>
  C3: \<open>step\<close> increments the generation counter by exactly 1 in every state, and on
  an empty alive set it leaves the alive set empty (and still increments the counter).
\<close>

theorem step_generation:
  "generation (step g) = generation g + 1 \<and>
   (alive_cells g = {} \<longrightarrow>
      alive_cells (step g) = {} \<and> generation (step g) = generation g + 1)"
  by (simp add: step_def cells_to_check_def Let_def)

theorem step_generation_witness:
  "generation (step (GameOfLife 10 10)) = 1 \<and>
   alive_cells (GameOfLife 10 10) = {} \<and>
   alive_cells (step (GameOfLife 10 10)) = {}"
  using step_generation [of "GameOfLife 10 10"] by (simp add: GameOfLife_def)

text \<open>
  C8: \<open>add_cell\<close> is idempotent: a second call with the same coordinate changes
  nothing, and adding a cell that is already alive leaves the alive set as it was.
  \<open>remove_cell\<close> of a coordinate that is not alive leaves the alive set and the
  population as they were; it returns a state, the method having no failing path.
\<close>

theorem add_cell_idempotent_remove_absent:
  "add_cell row col (add_cell row col g) = add_cell row col g \<and>
   ((row, col) \<in> alive_cells g \<longrightarrow> alive_cells (add_cell row col g) = alive_cells g) \<and>
   ((row, col) \<notin> alive_cells g \<longrightarrow>
      alive_cells (remove_cell row col g) = alive_cells g \<and>
      fst (population (remove_cell row col g)) = fst (population g) \<and>
      remove_cell row col g = g)"
  by (auto simp: add_cell_def remove_cell_def population_def insert_absorb)

theorem add_cell_idempotent_remove_absent_witness:
  "(5, 5) \<in> alive_cells (add_cell 5 5 (GameOfLife 10 10)) \<and>
   alive_cells (add_cell 5 5 (add_cell 5 5 (GameOfLife 10 10))) =
     alive_cells (add_cell 5 5 (GameOfLife 10 10)) \<and>
   (5, 5) \<notin> alive_cells (GameOfLife 10 10) \<and>
   remove_cell 5 5 (GameOfLife 10 10) = GameOfLife 10 10 \<and>
   fst (population (remove_cell 5 5 (GameOfLife 10 10))) = 0"
  using add_cell_idempotent_remove_absent [of 5 5 "add_cell 5 5 (GameOfLife 10 10)"]
    add_cell_idempotent_remove_absent [of 5 5 "GameOfLife 10 10"]
  by (simp add: add_cell_def GameOfLife_def population_def)

section \<open>Counting neighbors\<close>

text \<open>The nested loops over \<open>[-1, 0, 1]\<close> visit the nine offsets in a fixed order.\<close>

lemma fold_offsets:
  "fold (\<lambda>dr. fold (\<lambda>dc. f dr dc) [-1, 0, 1::int]) [-1, 0, 1::int] a =
     f 1 1 (f 1 0 (f 1 (-1) (f 0 1 (f 0 0 (f 0 (-1) (f (-1) 1 (f (-1) 0 (f (-1) (-1) a))))))))"
  by simp

lemma count_neighbors_sum:
  "fst (count_neighbors row col g) =
     (\<Sum>d \<leftarrow> [(-1,-1), (-1,0), (-1,1), (0,-1), (0,1), (1,-1), (1,0), (1,1)].
        if (row + fst d, col + snd d) \<in> alive_cells g then 1 else 0)"
  unfolding count_neighbors_def fold_offsets by simp

lemma card_filter_sum:
  "distinct xs \<Longrightarrow> int (card {x \<in> set xs. P x}) = (\<Sum>x \<leftarrow> xs. if P x then 1 else 0)"
proof (induction xs)
  case Nil
  then show ?case by simp
next
  case (Cons a xs)
  have fin: "finite {x \<in> set xs. P x}" by simp
  have eq: "{x \<in> set (a # xs). P x} =
      (if P a then insert a {x \<in> set xs. P x} else {x \<in> set xs. P x})"
    by auto
  from Cons have "a \<notin> {x \<in> set xs. P x}" by simp
  with Cons fin show ?case unfolding eq by simp
qed

lemma offsets_set:
  "{(dr::int, dc::int). dr \<in> {-1, 0, 1} \<and> dc \<in> {-1, 0, 1} \<and> (dr, dc) \<noteq> (0, 0) \<and> Q dr dc} =
   {d \<in> set [(-1,-1), (-1,0), (-1,1), (0,-1), (0,1), (1,-1), (1,0), (1,1)]. Q (fst d) (snd d)}"
  by auto

text \<open>
  C7: \<open>count_neighbors row col\<close> returns the number of the 8 offsets \<open>(dr, dc)\<close>, with
  \<open>dr\<close> and \<open>dc\<close> among -1, 0 and 1 and \<open>(0, 0)\<close> left out, whose cell
  \<open>(row + dr, col + dc)\<close> is in the alive set. The result lies between 0 and 8, the
  state (alive set and generation counter included) is returned as it was, and the
  count looks at no bound: it is the same whatever the advisory width and height are.
\<close>

theorem count_neighbors_spec:
  "fst (count_neighbors row col g) =
     int (card {(dr, dc). dr \<in> {-1, 0, 1} \<and> dc \<in> {-1, 0, 1} \<and> (dr, dc) \<noteq> (0, 0) \<and>
                  (row + dr, col + dc) \<in> alive_cells g}) \<and>
   0 \<le> fst (count_neighbors row col g) \<and> fst (count_neighbors row col g) \<le> 8 \<and>
   snd (count_neighbors row col g) = g \<and>
   fst (count_neighbors row col (g\<lparr>width := w, height := h\<rparr>)) = fst (count_neighbors row col g)"
proof -
  let ?ds = "[(-1,-1), (-1,0), (-1,1), (0,-1), (0,1), (1,-1), (1,0), (1,1)] :: (int \<times> int) list"
  have "distinct ?ds" by simp
  then have 1: "fst (count_neighbors row col g) =
     int (card {(dr, dc). dr \<in> {-1, 0, 1} \<and> dc \<in> {-1, 0, 1} \<and> (dr, dc) \<noteq> (0, 0) \<and>
                  (row + dr, col + dc) \<in> alive_cells g})"
    unfolding offsets_set [of "\<lambda>dr dc. (row + dr, col + dc) \<in> alive_cells g"]
      count_neighbors_sum
    by (rule card_filter_sum [symmetric])
  have 2: "0 \<le> fst (count_neighbors row col g) \<and> fst (count_neighbors row col g) \<le> 8"
    by (simp add: count_neighbors_sum)
  have 3: "snd (count_neighbors row col g) = g"
    by (simp add: count_neighbors_def)
  have 4: "fst (count_neighbors row col (g\<lparr>width := w, height := h\<rparr>)) = fst (count_neighbors row col g)"
    by (simp add: count_neighbors_sum)
  from 1 2 3 4 show ?thesis by blast
qed

section \<open>One generation\<close>

lemma block_iff:
  "((r::int), (c::int)) \<in> fold (\<lambda>dr. fold (\<lambda>dc acc. insert (row + dr, col + dc) acc) [-1, 0, 1])
          [-1, 0, 1] {} \<longleftrightarrow> r - row \<in> {-1, 0, 1} \<and> c - col \<in> {-1, 0, 1}"
proof -
  define x y where "x = r - row" and "y = c - col"
  then have r: "r = row + x" and c: "c = col + y" by simp_all
  have "(x = 1 \<and> y = 1 \<or> x = 1 \<and> y = 0 \<or> x = 1 \<and> y = -1 \<or>
         x = 0 \<and> y = 1 \<or> x = 0 \<and> y = 0 \<or> x = 0 \<and> y = -1 \<or>
         x = -1 \<and> y = 1 \<or> x = -1 \<and> y = 0 \<or> x = -1 \<and> y = -1) =
        ((x = -1 \<or> x = 0 \<or> x = 1) \<and> (y = -1 \<or> y = 0 \<or> y = 1))"
    by blast
  then show ?thesis unfolding r c by simp
qed

lemma cells_to_check_iff:
  "(r, c) \<in> cells_to_check g \<longleftrightarrow>
     (\<exists>row col. (row, col) \<in> alive_cells g \<and>
        r - row \<in> {-1, 0, 1} \<and> c - col \<in> {-1, 0, 1})"
proof -
  have "(r, c) \<in> cells_to_check g \<longleftrightarrow>
     (\<exists>x \<in> alive_cells g. (r, c) \<in> fold (\<lambda>dr. fold (\<lambda>dc acc. insert (fst x + dr, snd x + dc) acc) [-1, 0, 1])
          [-1, 0, 1] {})"
    unfolding cells_to_check_def by (simp only: UN_iff case_prod_beta)
  also have "\<dots> \<longleftrightarrow> (\<exists>x \<in> alive_cells g. r - fst x \<in> {-1, 0, 1} \<and> c - snd x \<in> {-1, 0, 1})"
    by (simp only: block_iff)
  also have "\<dots> \<longleftrightarrow> (\<exists>row col. (row, col) \<in> alive_cells g \<and>
        r - row \<in> {-1, 0, 1} \<and> c - col \<in> {-1, 0, 1})"
    by (simp only: Bex_def split_paired_Ex fst_conv snd_conv)
  finally show ?thesis .
qed

lemma alive_in_cells_to_check: "(r, c) \<in> alive_cells g \<Longrightarrow> (r, c) \<in> cells_to_check g"
  unfolding cells_to_check_iff by (rule exI [of _ r], rule exI [of _ c]) simp

lemma count_pos_in_cells_to_check:
  assumes "fst (count_neighbors r c g) \<noteq> 0"
  shows "(r, c) \<in> cells_to_check g"
proof (rule ccontr)
  assume "(r, c) \<notin> cells_to_check g"
  then have n: "\<And>row col. r - row \<in> {-1, 0, 1} \<Longrightarrow> c - col \<in> {-1, 0, 1} \<Longrightarrow> (row, col) \<notin> alive_cells g"
    unfolding cells_to_check_iff by blast
  have "fst (count_neighbors r c g) = 0"
    unfolding count_neighbors_sum
    using n [of "r + 1" "c + 1"] n [of "r + 1" c] n [of "r + 1" "c - 1"]
      n [of r "c + 1"] n [of r "c - 1"]
      n [of "r - 1" "c + 1"] n [of "r - 1" c] n [of "r - 1" "c - 1"]
    by simp
  with assms show False by simp
qed

lemma step_alive_iff:
  "(r, c) \<in> alive_cells (step g) \<longleftrightarrow>
     (r, c) \<in> cells_to_check g \<and>
     (if (r, c) \<in> alive_cells g
      then fst (count_neighbors r c g) = 2 \<or> fst (count_neighbors r c g) = 3
      else fst (count_neighbors r c g) = 3)"
  by (simp add: step_def is_alive_def Let_def)

text \<open>
  A cell that passes the rule is a candidate, so the rule alone decides membership in
  the next generation.
\<close>

lemma step_alive_rule:
  "(r, c) \<in> alive_cells (step g) \<longleftrightarrow>
     (if (r, c) \<in> alive_cells g
      then fst (count_neighbors r c g) = 2 \<or> fst (count_neighbors r c g) = 3
      else fst (count_neighbors r c g) = 3)"
proof -
  have a: "(r, c) \<in> alive_cells g \<Longrightarrow> (r, c) \<in> cells_to_check g"
    by (rule alive_in_cells_to_check)
  have b: "fst (count_neighbors r c g) = 3 \<Longrightarrow> (r, c) \<in> cells_to_check g"
    using count_pos_in_cells_to_check [of r c g] by simp
  show ?thesis
    unfolding step_alive_iff using a b by (cases "(r, c) \<in> alive_cells g") auto
qed

text \<open>
  C1: for every state and every cell of the candidate set of \<open>step\<close>, the cell is
  alive in the next generation if and only if it was alive with a neighbor count of 2
  or 3, or dead with a neighbor count of exactly 3.
\<close>

theorem step_rule_on_candidates:
  "(row, col) \<in> cells_to_check g \<Longrightarrow>
     ((row, col) \<in> alive_cells (step g)) =
       (((row, col) \<in> alive_cells g \<and>
           (fst (count_neighbors row col g) = 2 \<or> fst (count_neighbors row col g) = 3)) \<or>
        ((row, col) \<notin> alive_cells g \<and> fst (count_neighbors row col g) = 3))"
  by (simp only: step_alive_iff) (simp split: if_splits)

theorem step_rule_on_candidates_witness:
  "(5, 5) \<in> cells_to_check (add_cell 5 4 (add_cell 4 5 (add_cell 4 4 (GameOfLife 10 10)))) \<and>
   (5, 5) \<notin> alive_cells (add_cell 5 4 (add_cell 4 5 (add_cell 4 4 (GameOfLife 10 10)))) \<and>
   fst (count_neighbors 5 5 (add_cell 5 4 (add_cell 4 5 (add_cell 4 4 (GameOfLife 10 10))))) = 3 \<and>
   (5, 5) \<in> alive_cells (step (add_cell 5 4 (add_cell 4 5 (add_cell 4 4 (GameOfLife 10 10)))))"
proof -
  let ?g = "add_cell 5 4 (add_cell 4 5 (add_cell 4 4 (GameOfLife 10 10)))"
  have a: "alive_cells ?g = {(5, 4), (4, 5), (4, 4)}"
    by (simp add: add_cell_def GameOfLife_def)
  have c: "(5, 5) \<in> cells_to_check ?g"
    by (simp add: cells_to_check_def a)
  have n: "fst (count_neighbors 5 5 ?g) = 3"
    by (simp add: count_neighbors_def a)
  show ?thesis
    using step_rule_on_candidates [OF c] c n by (simp add: a)
qed

text \<open>
  C2: working on the candidate set only is the same as applying the rule to every
  cell of the unbounded grid: any cell at all is alive after \<open>step\<close> exactly when
  \<open>conway_rule\<close> says so, and a cell outside the candidate set is dead before and
  after \<open>step\<close>.
\<close>

theorem candidates_suffice:
  "(c \<in> alive_cells (step g) \<longleftrightarrow> conway_rule g c) \<and>
   (c \<notin> cells_to_check g \<longrightarrow> c \<notin> alive_cells g \<and> c \<notin> alive_cells (step g))"
proof (cases c)
  case (Pair row col)
  have rule: "(row, col) \<in> alive_cells (step g) \<longleftrightarrow> conway_rule g (row, col)"
    unfolding conway_rule_def Let_def fst_conv snd_conv step_alive_rule by auto
  have before: "(row, col) \<notin> cells_to_check g \<Longrightarrow> (row, col) \<notin> alive_cells g"
    using alive_in_cells_to_check by blast
  have after: "(row, col) \<notin> cells_to_check g \<Longrightarrow> (row, col) \<notin> alive_cells (step g)"
    by (simp add: step_alive_iff)
  show ?thesis
    unfolding Pair using rule before after by blast
qed

theorem candidates_suffice_witness:
  "(0, 0) \<notin> cells_to_check (add_cell 5 4 (add_cell 4 5 (add_cell 4 4 (GameOfLife 10 10)))) \<and>
   (0, 0) \<notin> alive_cells (add_cell 5 4 (add_cell 4 5 (add_cell 4 4 (GameOfLife 10 10)))) \<and>
   (0, 0) \<notin> alive_cells (step (add_cell 5 4 (add_cell 4 5 (add_cell 4 4 (GameOfLife 10 10))))) \<and>
   \<not> conway_rule (add_cell 5 4 (add_cell 4 5 (add_cell 4 4 (GameOfLife 10 10)))) (0, 0)"
proof -
  let ?g = "add_cell 5 4 (add_cell 4 5 (add_cell 4 4 (GameOfLife 10 10)))"
  have a: "alive_cells ?g = {(5, 4), (4, 5), (4, 4)}"
    by (simp add: add_cell_def GameOfLife_def)
  have c: "(0, 0) \<notin> cells_to_check ?g"
    by (simp add: cells_to_check_def a)
  show ?thesis
    using candidates_suffice [of "(0, 0)" ?g] c by blast
qed

section \<open>\<open>randomize\<close>\<close>

text \<open>
  A field of the state that no iteration of a loop changes is unchanged by the loop.
\<close>

lemma fold_fst_invariant:
  assumes "\<And>x g s. I (fst (f x (g, s))) = I g"
  shows "I (fst (fold f xs (g, s))) = I g"
proof (induction xs arbitrary: g s)
  case Nil
  show ?case by simp
next
  case (Cons x xs)
  obtain g' s' where e: "f x (g, s) = (g', s')" by (cases "f x (g, s)")
  have "I g' = I g" using assms [of x g s] by (simp add: e)
  with Cons.IH [of g' s'] show ?case by (simp add: e)
qed

lemma row_generation:
  "generation (fst (fold (\<lambda>col. \<lambda>(g, s).
            let (x, s') = random s in
            if P x then (add_cell row col g, s') else (g, s')) cols (g, s))) = generation g"
  by (rule fold_fst_invariant) (simp add: split_beta add_cell_def)

text \<open>
  C10: for every state, every generator and every density (NaN and the infinities
  included), \<open>randomize\<close> leaves the generation counter at 0: it starts with
  \<open>clear\<close>, and the fill that follows only adds cells.
\<close>

theorem randomize_resets_generation:
  "generation (fst (randomize random density (g, s))) = 0"
proof -
  have "generation (fst (randomize random density (g, s))) = generation (clear g)"
    unfolding randomize_def fst_conv snd_conv
    by (rule fold_fst_invariant) (simp only: prod.case row_generation)
  then show ?thesis by (simp add: clear_def)
qed

text \<open>
  When every draw passes the test \<open>random.random() < density\<close>, a row of the fill adds
  every cell of the row, and the fill adds the whole rectangle; when no draw passes
  it, the state stays as \<open>clear\<close> left it.
\<close>

lemma row_all:
  assumes "\<And>s. P (fst (random s))"
  shows "fst (fold (\<lambda>col. \<lambda>(g, s).
            let (x, s') = random s in
            if P x then (add_cell row col g, s') else (g, s')) cols (g, s)) =
         g\<lparr>alive_cells := alive_cells g \<union> {row} \<times> set cols\<rparr>"
proof (induction cols arbitrary: g s)
  case Nil
  show ?case by simp
next
  case (Cons col cols)
  let ?f = "\<lambda>col. \<lambda>(g, s).
            let (x, s') = random s in
            if P x then (add_cell row col g, s') else (g, s')"
  have f: "?f col (g, s) = (add_cell row col g, snd (random s))"
    using assms [of s] by (simp add: split_beta)
  have u: "alive_cells (add_cell row col g) \<union> {row} \<times> set cols =
        alive_cells g \<union> {row} \<times> set (col # cols)"
    by (auto simp: add_cell_def)
  have "fst (fold ?f (col # cols) (g, s)) = fst (fold ?f cols (add_cell row col g, snd (random s)))"
    by (simp only: fold_simps f)
  also have "\<dots> = (add_cell row col g)\<lparr>alive_cells :=
       alive_cells (add_cell row col g) \<union> {row} \<times> set cols\<rparr>"
    by (rule Cons.IH)
  also have "\<dots> = g\<lparr>alive_cells := alive_cells g \<union> {row} \<times> set (col # cols)\<rparr>"
    unfolding u by (simp add: add_cell_def)
  finally show ?case .
qed

lemma row_none:
  assumes "\<And>s. \<not> P (fst (random s))"
  shows "fst (fold (\<lambda>col. \<lambda>(g, s).
            let (x, s') = random s in
            if P x then (add_cell row col g, s') else (g, s')) cols (g, s)) = g"
  using assms by (induction cols arbitrary: g s) (simp_all add: split_beta)

lemma rows_all:
  assumes "\<And>s. P (fst (random s))"
  shows "fst (fold (\<lambda>row. \<lambda>(g0, s0).
        fold (\<lambda>col. \<lambda>(g, s).
            let (x, s') = random s in
            if P x then (add_cell row col g, s') else (g, s'))
          (range_int (width g0)) (g0, s0)) rows (g, s)) =
         g\<lparr>alive_cells := alive_cells g \<union> set rows \<times> set (range_int (width g))\<rparr>"
proof (induction rows arbitrary: g s)
  case Nil
  show ?case by simp
next
  case (Cons row rows)
  let ?r = "fold (\<lambda>col. \<lambda>(g, s).
            let (x, s') = random s in
            if P x then (add_cell row col g, s') else (g, s'))
          (range_int (width g)) (g, s)"
  have g': "fst ?r = g\<lparr>alive_cells := alive_cells g \<union> {row} \<times> set (range_int (width g))\<rparr>"
    using assms by (rule row_all)
  have u: "alive_cells g \<union> {row} \<times> set (range_int (width g)) \<union>
             set rows \<times> set (range_int (width g)) =
           alive_cells g \<union> set (row # rows) \<times> set (range_int (width g))"
    by auto
  have "fst (fold (\<lambda>row. \<lambda>(g0, s0).
        fold (\<lambda>col. \<lambda>(g, s).
            let (x, s') = random s in
            if P x then (add_cell row col g, s') else (g, s'))
          (range_int (width g0)) (g0, s0)) (row # rows) (g, s)) =
        fst (fold (\<lambda>row. \<lambda>(g0, s0).
        fold (\<lambda>col. \<lambda>(g, s).
            let (x, s') = random s in
            if P x then (add_cell row col g, s') else (g, s'))
          (range_int (width g0)) (g0, s0)) rows (fst ?r, snd ?r))"
    by simp
  also have "\<dots> = (fst ?r)\<lparr>alive_cells := alive_cells (fst ?r) \<union>
       set rows \<times> set (range_int (width (fst ?r)))\<rparr>"
    by (rule Cons.IH)
  also have "\<dots> = g\<lparr>alive_cells := alive_cells g \<union> set (row # rows) \<times> set (range_int (width g))\<rparr>"
    unfolding g' by (simp add: u)
  finally show ?case .
qed

lemma rows_none:
  assumes "\<And>s. \<not> P (fst (random s))"
  shows "fst (fold (\<lambda>row. \<lambda>(g0, s0).
        fold (\<lambda>col. \<lambda>(g, s).
            let (x, s') = random s in
            if P x then (add_cell row col g, s') else (g, s'))
          (range_int (width g0)) (g0, s0)) rows (g, s)) = g"
proof (induction rows arbitrary: g s)
  case Nil
  show ?case by simp
next
  case (Cons row rows)
  let ?r = "fold (\<lambda>col. \<lambda>(g, s).
            let (x, s') = random s in
            if P x then (add_cell row col g, s') else (g, s'))
          (range_int (width g)) (g, s)"
  have g': "fst ?r = g"
    using assms by (rule row_none)
  have "fst (fold (\<lambda>row. \<lambda>(g0, s0).
        fold (\<lambda>col. \<lambda>(g, s).
            let (x, s') = random s in
            if P x then (add_cell row col g, s') else (g, s'))
          (range_int (width g0)) (g0, s0)) (row # rows) (g, s)) =
        fst (fold (\<lambda>row. \<lambda>(g0, s0).
        fold (\<lambda>col. \<lambda>(g, s).
            let (x, s') = random s in
            if P x then (add_cell row col g, s') else (g, s'))
          (range_int (width g0)) (g0, s0)) rows (fst ?r, snd ?r))"
    by simp
  also have "\<dots> = fst ?r"
    by (rule Cons.IH)
  finally show ?case unfolding g' .
qed

lemma card_range_int: "card (set (range_int n)) = nat n"
proof -
  have "distinct (range_int n)"
    unfolding range_int_def by (simp add: distinct_map)
  then have "card (set (range_int n)) = length (range_int n)"
    by (rule distinct_card)
  then show ?thesis by (simp add: range_int_def)
qed

lemma sample_random_range: "0 \<le> fst (sample_random s) \<and> fst (sample_random s) < 1"
proof -
  have "s mod 4 < 4" by simp
  then have "real (s mod 4) < 4" by (simp only: of_nat_less_iff [symmetric, where 'a = real] of_nat_numeral)
  then show ?thesis by (simp add: sample_random_def)
qed

text \<open>
  C9, as the code has it: with a generator whose draws are all in \<open>[0, 1)\<close>, whatever
  the prior state, the population is 0 after \<open>randomize(0.0)\<close>, and after
  \<open>randomize(1.0)\<close> it is \<open>max(n, 0) * max(m, 0)\<close> for width \<open>n\<close> and height \<open>m\<close>, which is
  \<open>n * m\<close> when neither is negative. The constructor takes any integers, and
  \<open>range\<close> of a negative number is empty.
\<close>

theorem randomize_extremes:
  assumes "\<forall>s. 0 \<le> fst (random s) \<and> fst (random s) < 1"
  shows "fst (population (fst (randomize random (Finite 0) (g, s)))) = 0 \<and>
         fst (population (fst (randomize random (Finite 1) (g, s)))) =
           max 0 (width g) * max 0 (height g)"
proof -
  have none: "\<And>s. \<not> float_lt (Finite (fst (random s))) (Finite 0)"
    using assms by (simp add: not_less)
  have all: "\<And>s. float_lt (Finite (fst (random s))) (Finite 1)"
    using assms by simp
  have "fst (randomize random (Finite 0) (g, s)) = clear g"
    unfolding randomize_def fst_conv snd_conv using none by (rule rows_none)
  then have zero: "fst (population (fst (randomize random (Finite 0) (g, s)))) = 0"
    by (simp add: population_def clear_def)
  have "fst (randomize random (Finite 1) (g, s)) =
      (clear g)\<lparr>alive_cells := alive_cells (clear g) \<union>
         set (range_int (height (clear g))) \<times> set (range_int (width (clear g)))\<rparr>"
    unfolding randomize_def fst_conv snd_conv using all by (rule rows_all)
  then have "alive_cells (fst (randomize random (Finite 1) (g, s))) =
      set (range_int (height g)) \<times> set (range_int (width g))"
    by (simp add: clear_def)
  then have "fst (population (fst (randomize random (Finite 1) (g, s)))) =
      int (nat (height g) * nat (width g))"
    by (simp add: population_def card_cartesian_product card_range_int)
  also have "\<dots> = max 0 (width g) * max 0 (height g)"
    by (simp add: max_def)
  finally show ?thesis using zero by simp
qed

theorem randomize_extremes_witness:
  "(\<forall>s. 0 \<le> fst (sample_random s) \<and> fst (sample_random s) < 1) \<and>
   fst (population (fst (randomize sample_random (Finite 0) (step (add_cell 7 7 (GameOfLife 3 2)), 0)))) = 0 \<and>
   fst (population (fst (randomize sample_random (Finite 1) (step (add_cell 7 7 (GameOfLife 3 2)), 0)))) = 6"
proof -
  have h: "\<forall>s. 0 \<le> fst (sample_random s) \<and> fst (sample_random s) < 1"
    using sample_random_range by blast
  have w: "width (step (add_cell 7 7 (GameOfLife 3 2))) = 3"
    and h': "height (step (add_cell 7 7 (GameOfLife 3 2))) = 2"
    by (simp_all add: step_def add_cell_def GameOfLife_def Let_def)
  show ?thesis
    using h randomize_extremes [OF h, of "step (add_cell 7 7 (GameOfLife 3 2))" 0]
    by (simp add: w h')
qed

text \<open>
  C9 as it is stated, with \<open>n * m\<close> for every width and height, fails: with width -2
  and height 3 the fill visits no cell, and the population after \<open>randomize(1.0)\<close> is
  0, not \<open>n * m = -6\<close>.
\<close>

theorem randomize_negative_width_counterexample:
  "fst (population (fst (randomize sample_random (Finite 1) (GameOfLife (-2) 3, 0)))) = 0 \<and>
   fst (population (fst (randomize sample_random (Finite 1) (GameOfLife (-2) 3, 0)))) \<noteq>
     width (GameOfLife (-2) 3) * height (GameOfLife (-2) 3)"
  by (simp add: randomize_def range_int_def GameOfLife_def clear_def population_def upt_rec)

section \<open>\<open>step\<close> commutes with translations\<close>

text \<open>
  The next generation depends on the alive set only, and moving every alive cell by
  the same offset moves the next generation by that offset.
\<close>

lemma translate_image_iff:
  "(r, c) \<in> translate a b ` A \<longleftrightarrow> (r - a, c - b) \<in> A"
proof
  assume "(r, c) \<in> translate a b ` A"
  then obtain x y where "(x, y) \<in> A" and "r = x + a" and "c = y + b"
    by (auto simp: translate_def)
  then show "(r - a, c - b) \<in> A" by simp
next
  assume "(r - a, c - b) \<in> A"
  then have "translate a b (r - a, c - b) \<in> translate a b ` A" by (rule imageI)
  then show "(r, c) \<in> translate a b ` A" by (simp add: translate_def)
qed

lemma inj_translate: "inj (translate a b)"
  by (rule injI) (simp add: translate_def prod_eq_iff)

lemma count_neighbors_translate:
  assumes "alive_cells g' = translate a b ` alive_cells g"
  shows "fst (count_neighbors r c g') = fst (count_neighbors (r - a) (c - b) g)"
proof -
  have "\<And>dr dc. (r + dr, c + dc) \<in> alive_cells g' \<longleftrightarrow> (r - a + dr, c - b + dc) \<in> alive_cells g"
  proof -
    fix dr dc
    have e: "r + dr - a = r - a + dr" "c + dc - b = c - b + dc" by simp_all
    show "(r + dr, c + dc) \<in> alive_cells g' \<longleftrightarrow> (r - a + dr, c - b + dc) \<in> alive_cells g"
      unfolding assms translate_image_iff by (simp only: e)
  qed
  then show ?thesis unfolding count_neighbors_sum by simp
qed

lemma step_translate:
  assumes "alive_cells g' = translate a b ` alive_cells g"
  shows "alive_cells (step g') = translate a b ` alive_cells (step g)"
proof (rule set_eqI)
  fix x :: Cell
  obtain r c where x: "x = (r, c)" by (cases x)
  have m: "(r, c) \<in> alive_cells g' \<longleftrightarrow> (r - a, c - b) \<in> alive_cells g"
    unfolding assms by (rule translate_image_iff)
  show "x \<in> alive_cells (step g') \<longleftrightarrow> x \<in> translate a b ` alive_cells (step g)"
    unfolding x translate_image_iff step_alive_rule m
      count_neighbors_translate [OF assms] ..
qed

lemma funpow_step_translate:
  assumes "alive_cells g' = translate a b ` alive_cells g"
  shows "alive_cells ((step ^^ n) g') = translate a b ` alive_cells ((step ^^ n) g)"
proof (induction n)
  case 0
  show ?case using assms by simp
next
  case (Suc n)
  then show ?case by (simp add: step_translate)
qed

lemma step_cong:
  assumes "alive_cells g' = alive_cells g"
  shows "alive_cells (step g') = alive_cells (step g)"
proof -
  have "alive_cells g' = translate 0 0 ` alive_cells g"
    using assms by (simp add: translate_def)
  then have "alive_cells (step g') = translate 0 0 ` alive_cells (step g)"
    by (rule step_translate)
  then show ?thesis by (simp add: translate_def)
qed

section \<open>The glider\<close>

text \<open>
  The four generations of the glider loaded at offset \<open>(5, 5)\<close>, each computed from the
  one before; the fourth is the first moved by \<open>(1, 1)\<close>, so every later generation is
  a translate of one of the first four.
\<close>

lemma glider_gen0:
  "alive_cells (add_pattern [''.O.'', ''..O'', ''OOO''] 5 5 (GameOfLife w h)) =
   {(5, 6), (6, 7), (7, 5), (7, 6), (7, 7)}"
  by (simp add: add_pattern_def add_cell_def GameOfLife_def insert_commute)

lemma glider_gen1:
  assumes "alive_cells g = {(5, 6), (6, 7), (7, 5), (7, 6), (7, 7)}"
  shows "alive_cells (step g) = {(6, 5), (6, 7), (7, 6), (7, 7), (8, 6)}"
proof -
  have "alive_cells (step \<lparr>width = 20, height = 20,
      alive_cells = {(5, 6), (6, 7), (7, 5), (7, 6), (7, 7)}, generation = 0\<rparr>) =
      {(6, 5), (6, 7), (7, 6), (7, 7), (8, 6)}"
    by code_simp
  moreover have "alive_cells (step g) = alive_cells (step \<lparr>width = 20, height = 20,
      alive_cells = {(5, 6), (6, 7), (7, 5), (7, 6), (7, 7)}, generation = 0\<rparr>)"
    by (rule step_cong) (simp add: assms)
  ultimately show ?thesis by simp
qed

lemma glider_gen2:
  assumes "alive_cells g = {(6, 5), (6, 7), (7, 6), (7, 7), (8, 6)}"
  shows "alive_cells (step g) = {(6, 7), (7, 5), (7, 7), (8, 6), (8, 7)}"
proof -
  have "alive_cells (step \<lparr>width = 20, height = 20,
      alive_cells = {(6, 5), (6, 7), (7, 6), (7, 7), (8, 6)}, generation = 0\<rparr>) =
      {(6, 7), (7, 5), (7, 7), (8, 6), (8, 7)}"
    by code_simp
  moreover have "alive_cells (step g) = alive_cells (step \<lparr>width = 20, height = 20,
      alive_cells = {(6, 5), (6, 7), (7, 6), (7, 7), (8, 6)}, generation = 0\<rparr>)"
    by (rule step_cong) (simp add: assms)
  ultimately show ?thesis by simp
qed

lemma glider_gen3:
  assumes "alive_cells g = {(6, 7), (7, 5), (7, 7), (8, 6), (8, 7)}"
  shows "alive_cells (step g) = {(6, 6), (7, 7), (7, 8), (8, 6), (8, 7)}"
proof -
  have "alive_cells (step \<lparr>width = 20, height = 20,
      alive_cells = {(6, 7), (7, 5), (7, 7), (8, 6), (8, 7)}, generation = 0\<rparr>) =
      {(6, 6), (7, 7), (7, 8), (8, 6), (8, 7)}"
    by code_simp
  moreover have "alive_cells (step g) = alive_cells (step \<lparr>width = 20, height = 20,
      alive_cells = {(6, 7), (7, 5), (7, 7), (8, 6), (8, 7)}, generation = 0\<rparr>)"
    by (rule step_cong) (simp add: assms)
  ultimately show ?thesis by simp
qed

lemma glider_gen4:
  assumes "alive_cells g = {(6, 6), (7, 7), (7, 8), (8, 6), (8, 7)}"
  shows "alive_cells (step g) = {(6, 7), (7, 8), (8, 6), (8, 7), (8, 8)}"
proof -
  have "alive_cells (step \<lparr>width = 20, height = 20,
      alive_cells = {(6, 6), (7, 7), (7, 8), (8, 6), (8, 7)}, generation = 0\<rparr>) =
      {(6, 7), (7, 8), (8, 6), (8, 7), (8, 8)}"
    by code_simp
  moreover have "alive_cells (step g) = alive_cells (step \<lparr>width = 20, height = 20,
      alive_cells = {(6, 6), (7, 7), (7, 8), (8, 6), (8, 7)}, generation = 0\<rparr>)"
    by (rule step_cong) (simp add: assms)
  ultimately show ?thesis by simp
qed


lemma glider_generations:
  fixes w h :: int
  defines "g0 \<equiv> add_pattern [''.O.'', ''..O'', ''OOO''] 5 5 (GameOfLife w h)"
  shows "alive_cells ((step ^^ 0) g0) = {(5, 6), (6, 7), (7, 5), (7, 6), (7, 7)}"
    and "alive_cells ((step ^^ 1) g0) = {(6, 5), (6, 7), (7, 6), (7, 7), (8, 6)}"
    and "alive_cells ((step ^^ 2) g0) = {(6, 7), (7, 5), (7, 7), (8, 6), (8, 7)}"
    and "alive_cells ((step ^^ 3) g0) = {(6, 6), (7, 7), (7, 8), (8, 6), (8, 7)}"
    and "alive_cells ((step ^^ 4) g0) = {(6, 7), (7, 8), (8, 6), (8, 7), (8, 8)}"
proof -
  have a0: "alive_cells g0 = {(5, 6), (6, 7), (7, 5), (7, 6), (7, 7)}"
    unfolding g0_def by (rule glider_gen0)
  have a1: "alive_cells (step g0) = {(6, 5), (6, 7), (7, 6), (7, 7), (8, 6)}"
    using a0 by (rule glider_gen1)
  have a2: "alive_cells (step (step g0)) = {(6, 7), (7, 5), (7, 7), (8, 6), (8, 7)}"
    using a1 by (rule glider_gen2)
  have a3: "alive_cells (step (step (step g0))) = {(6, 6), (7, 7), (7, 8), (8, 6), (8, 7)}"
    using a2 by (rule glider_gen3)
  have a4: "alive_cells (step (step (step (step g0)))) = {(6, 7), (7, 8), (8, 6), (8, 7), (8, 8)}"
    using a3 by (rule glider_gen4)
  show "alive_cells ((step ^^ 0) g0) = {(5, 6), (6, 7), (7, 5), (7, 6), (7, 7)}"
    using a0 by simp
  show "alive_cells ((step ^^ 1) g0) = {(6, 5), (6, 7), (7, 6), (7, 7), (8, 6)}"
    using a1 by simp
  show "alive_cells ((step ^^ 2) g0) = {(6, 7), (7, 5), (7, 7), (8, 6), (8, 7)}"
    using a2 by (simp add: eval_nat_numeral)
  show "alive_cells ((step ^^ 3) g0) = {(6, 6), (7, 7), (7, 8), (8, 6), (8, 7)}"
    using a3 by (simp add: eval_nat_numeral)
  show "alive_cells ((step ^^ 4) g0) = {(6, 7), (7, 8), (8, 6), (8, 7), (8, 8)}"
    using a4 by (simp add: eval_nat_numeral)
qed

lemma glider_shift:
  "alive_cells ((step ^^ 4) (add_pattern [''.O.'', ''..O'', ''OOO''] 5 5 (GameOfLife w h))) =
     translate 1 1 ` alive_cells (add_pattern [''.O.'', ''..O'', ''OOO''] 5 5 (GameOfLife w h))"
  unfolding glider_generations(5) glider_gen0 by (simp add: translate_def)

lemma glider_card:
  "card (alive_cells ((step ^^ n) (add_pattern [''.O.'', ''..O'', ''OOO''] 5 5 (GameOfLife w h)))) = 5"
proof (induction n rule: less_induct)
  case (less n)
  let ?g0 = "add_pattern [''.O.'', ''..O'', ''OOO''] 5 5 (GameOfLife w h)"
  consider "n = 0" | "n = 1" | "n = 2" | "n = 3" | "4 \<le> n" by arith
  then show ?case
  proof cases
    case 1
    show ?thesis unfolding 1 glider_generations(1) by simp
  next
    case 2
    show ?thesis unfolding 2 glider_generations(2) by simp
  next
    case 3
    show ?thesis unfolding 3 glider_generations(3) by simp
  next
    case 4
    show ?thesis unfolding 4 glider_generations(4) by simp
  next
    case 5
    then have n: "n = (n - 4) + 4" by simp
    have "(step ^^ n) ?g0 = (step ^^ (n - 4)) ((step ^^ 4) ?g0)"
      by (subst n) (simp only: funpow_add o_apply)
    then have "alive_cells ((step ^^ n) ?g0) =
        translate 1 1 ` alive_cells ((step ^^ (n - 4)) ?g0)"
      using funpow_step_translate [OF glider_shift, of "n - 4" w h] by simp
    then have "card (alive_cells ((step ^^ n) ?g0)) =
        card (alive_cells ((step ^^ (n - 4)) ?g0))"
      by (simp add: card_image inj_translate [THEN inj_on_subset])
    also have "\<dots> = 5"
      using 5 by (intro less.IH) simp
    finally show ?thesis .
  qed
qed

text \<open>
  C5: in an empty engine of any width and height, with the catalog's glider
  \<open>.O. / ..O / OOO\<close> loaded at offset \<open>(5, 5)\<close>, the population is 5 after any number
  \<open>n\<close> of calls of \<open>step\<close>, and after exactly 4 calls the alive set is the alive set of
  generation 0 translated by \<open>(+1, +1)\<close>.
\<close>

theorem glider_population_and_shift:
  "PATTERNS ''glider'' = Some [''.O.'', ''..O'', ''OOO''] \<and>
   fst (population ((step ^^ n) (add_pattern [''.O.'', ''..O'', ''OOO''] 5 5 (GameOfLife w h)))) = 5 \<and>
   alive_cells ((step ^^ 4) (add_pattern [''.O.'', ''..O'', ''OOO''] 5 5 (GameOfLife w h))) =
     (\<lambda>(r, c). (r + 1, c + 1)) `
       alive_cells (add_pattern [''.O.'', ''..O'', ''OOO''] 5 5 (GameOfLife w h))"
proof -
  have p: "PATTERNS ''glider'' = Some [''.O.'', ''..O'', ''OOO'']"
    by (simp add: PATTERNS_def)
  have t: "translate 1 1 = (\<lambda>(r, c). (r + 1, c + 1))"
    by (simp add: fun_eq_iff translate_def)
  show ?thesis
    using p glider_card [of n w h] glider_shift [of w h]
    by (simp add: population_def t)
qed

section \<open>\<open>add_pattern\<close>\<close>

text \<open>
  A loop whose every iteration adds a set of cells adds the union of those sets; a
  field that no iteration changes is unchanged by the loop.
\<close>

lemma fold_alive_union:
  assumes "\<And>x g. alive_cells (f x g) = alive_cells g \<union> A x"
  shows "alive_cells (fold f xs g) = alive_cells g \<union> (\<Union>x \<in> set xs. A x)"
proof (induction xs arbitrary: g)
  case Nil
  show ?case by simp
next
  case (Cons x xs)
  have "alive_cells (fold f (x # xs) g) = alive_cells (f x g) \<union> (\<Union>x \<in> set xs. A x)"
    by (simp add: Cons.IH)
  then show ?case unfolding assms by auto
qed

lemma fold_invariant:
  assumes "\<And>x g. I (f x g) = I g"
  shows "I (fold f xs g) = I g"
  by (induction xs arbitrary: g) (simp_all add: assms)

lemma set_enumerate_nth:
  "set (enumerate 0 xs) = (\<lambda>i. (i, xs ! i)) ` {..<length xs}"
proof (rule set_eqI)
  fix p :: "nat \<times> 'a"
  obtain i x where p: "p = (i, x)" by (cases p)
  show "p \<in> set (enumerate 0 xs) \<longleftrightarrow> p \<in> (\<lambda>i. (i, xs ! i)) ` {..<length xs}"
    unfolding p by (auto simp: in_set_enumerate_eq)
qed

lemma add_line_alive:
  "alive_cells (fold (\<lambda>(c, char).
            if char \<in> {CHR ''O'', CHR ''#'', CHR ''*''}
            then add_cell row (int c + offset_col) else id) (enumerate 0 line) g) =
   alive_cells g \<union> {(row, int c + offset_col) | c.
      c < length line \<and> line ! c \<in> {CHR ''O'', CHR ''#'', CHR ''*''}}"
proof -
  let ?A = "\<lambda>(c, char). if char \<in> {CHR ''O'', CHR ''#'', CHR ''*''}
      then {(row, int c + offset_col)} else {}"
  have "alive_cells (fold (\<lambda>(c, char).
            if char \<in> {CHR ''O'', CHR ''#'', CHR ''*''}
            then add_cell row (int c + offset_col) else id) (enumerate 0 line) g) =
     alive_cells g \<union> (\<Union>x \<in> set (enumerate 0 line). ?A x)"
    by (rule fold_alive_union) (simp add: split_beta add_cell_def)
  also have "(\<Union>x \<in> set (enumerate 0 line). ?A x) = {(row, int c + offset_col) | c.
      c < length line \<and> line ! c \<in> {CHR ''O'', CHR ''#'', CHR ''*''}}"
    unfolding set_enumerate_nth by (auto split: if_splits)
  finally show ?thesis .
qed

lemma add_pattern_alive:
  "alive_cells (add_pattern pattern offset_row offset_col g) =
   alive_cells g \<union> {(int r + offset_row, int c + offset_col) | r c.
      r < length pattern \<and> c < length (pattern ! r) \<and>
      pattern ! r ! c \<in> {CHR ''O'', CHR ''#'', CHR ''*''}}"
proof -
  let ?B = "\<lambda>(r, line). {(int r + offset_row, int c + offset_col) | c.
      c < length line \<and> line ! c \<in> {CHR ''O'', CHR ''#'', CHR ''*''}}"
  have "alive_cells (add_pattern pattern offset_row offset_col g) =
     alive_cells g \<union> (\<Union>x \<in> set (enumerate 0 pattern). ?B x)"
    unfolding add_pattern_def
    by (rule fold_alive_union) (simp only: split_beta add_line_alive)
  also have "(\<Union>x \<in> set (enumerate 0 pattern). ?B x) =
     {(int r + offset_row, int c + offset_col) | r c.
      r < length pattern \<and> c < length (pattern ! r) \<and>
      pattern ! r ! c \<in> {CHR ''O'', CHR ''#'', CHR ''*''}}"
    unfolding set_enumerate_nth by auto
  finally show ?thesis .
qed

lemma add_pattern_fields:
  "generation (add_pattern pattern offset_row offset_col g) = generation g"
  "width (add_pattern pattern offset_row offset_col g) = width g"
  "height (add_pattern pattern offset_row offset_col g) = height g"
  unfolding add_pattern_def
  by (rule fold_invariant, simp only: split_beta, rule fold_invariant,
      simp add: split_beta add_cell_def)+

text \<open>
  C6: for every prior state, every pattern and every offset, the alive set after
  \<open>add_pattern\<close> is the alive set before it together with the cells
  \<open>(r + offset_row, c + offset_col)\<close> of exactly the positions \<open>(r, c)\<close> of the pattern
  whose character is \<open>O\<close>, \<open>#\<close> or \<open>*\<close>. No cell is removed: every cell alive before
  the call is alive after it, also where the pattern has a dead marker. The other
  fields are unchanged.
\<close>

theorem add_pattern_overlay:
  "alive_cells (add_pattern pattern offset_row offset_col g) =
     alive_cells g \<union> {(int r + offset_row, int c + offset_col) | r c.
        r < length pattern \<and> c < length (pattern ! r) \<and>
        pattern ! r ! c \<in> {CHR ''O'', CHR ''#'', CHR ''*''}} \<and>
   alive_cells g \<subseteq> alive_cells (add_pattern pattern offset_row offset_col g) \<and>
   generation (add_pattern pattern offset_row offset_col g) = generation g \<and>
   width (add_pattern pattern offset_row offset_col g) = width g \<and>
   height (add_pattern pattern offset_row offset_col g) = height g"
  unfolding add_pattern_fields by (simp only: add_pattern_alive) simp

theorem add_pattern_overlay_witness:
  "(0, 0) \<in> alive_cells (add_cell 0 0 (GameOfLife 10 10)) \<and>
   alive_cells (add_pattern [''.O#'', ''*x''] 0 0 (add_cell 0 0 (GameOfLife 10 10))) =
     {(0, 0), (0, 1), (0, 2), (1, 0)} \<and>
   (0, 0) \<in> alive_cells (add_pattern [''.O#'', ''*x''] 0 0 (add_cell 0 0 (GameOfLife 10 10)))"
proof -
  have e: "alive_cells (add_pattern [''.O#'', ''*x''] 0 0 (add_cell 0 0 (GameOfLife 10 10))) =
     {(0, 0), (0, 1), (0, 2), (1, 0)}"
    by (simp add: add_pattern_def add_cell_def GameOfLife_def insert_commute)
  have a: "(0, 0) \<in> alive_cells (add_cell 0 0 (GameOfLife 10 10))"
    by (simp add: add_cell_def)
  show ?thesis
    using add_pattern_overlay [of "[''.O#'', ''*x'']" 0 0 "add_cell 0 0 (GameOfLife 10 10)"] a e
    by blast
qed

end
